theory Spec2Isabelle
  imports Complex_Main "HOL-Library.AList"
begin

section \<open>Laplacian mesh smoothing: the model of \<open>src/main.py\<close>\<close>

text \<open>
  The development embeds \<open>LaplacianSmoothingApp._laplacian_smooth\<close> and the part of
  \<open>apply_smoothing\<close> that calls it. Vertex coordinates are NumPy floats in the program;
  here they are real numbers, so rounding, overflow and NaN are outside the model. The
  properties proved below are those that hold whatever the arithmetic computes: which
  rows are read and written, which rows are left alone, what the connectivity pass
  returns and when the call raises. No property is derived from an identity of real
  arithmetic that floats do not share.
  Vertex indices and the entries of the flat face array are unbounded integers.
  A Python exception is a value \<open>Inl e\<close>; a \<open>while\<close> loop that does not return is
  \<open>None\<close>.
\<close>

subsection \<open>Points and row arithmetic\<close>

type_synonym point = "real \<times> real \<times> real"

fun axis :: "nat \<Rightarrow> point \<Rightarrow> real" where
  "axis k (x, y, z) = (if k = 0 then x else if k = 1 then y else z)"

fun vadd :: "point \<Rightarrow> point \<Rightarrow> point" where
  "vadd (x1, y1, z1) (x2, y2, z2) = (x1 + x2, y1 + y2, z1 + z2)"

fun vsub :: "point \<Rightarrow> point \<Rightarrow> point" where
  "vsub (x1, y1, z1) (x2, y2, z2) = (x1 - x2, y1 - y2, z1 - z2)"

fun vscale :: "real \<Rightarrow> point \<Rightarrow> point" where
  "vscale c (x, y, z) = (c * x, c * y, c * z)"

datatype py_error = KeyError | IndexError

text \<open>\<open>arr[i]\<close> on a one-dimensional array: a negative index counts from the end.\<close>

definition np_get :: "'a list \<Rightarrow> int \<Rightarrow> py_error + 'a" where
  "np_get arr i =
     (let L = int (length arr); j = (if i < 0 then i + L else i)
      in if 0 \<le> j \<and> j < L then Inr (arr ! nat j) else Inl IndexError)"

text \<open>\<open>arr[s:e]\<close>: both bounds are shifted when negative and then clipped to the array.\<close>

definition clip_index :: "nat \<Rightarrow> int \<Rightarrow> nat" where
  "clip_index L k = (if k < 0 then nat (max 0 (k + int L)) else min (nat k) L)"

definition np_slice :: "'a list \<Rightarrow> int \<Rightarrow> int \<Rightarrow> 'a list" where
  "np_slice arr s e =
     (let s' = clip_index (length arr) s; e' = clip_index (length arr) e
      in take (e' - s') (drop s' arr))"

text \<open>
  \<open>np.mean(new_pts[nbr_indices], axis=0)\<close> with \<open>nbr_indices = list(adj[idx])\<close>: the rows
  selected by the members of the set, each once, averaged column by column. The fancy index
  raises IndexError when a member is outside \<open>[-N, N)\<close>. The order in which the set is
  listed does not matter for a sum of reals.
\<close>

definition np_row :: "point list \<Rightarrow> int \<Rightarrow> point" where
  "np_row pts j = pts ! nat (if j < 0 then j + int (length pts) else j)"

definition nbr_mean :: "point list \<Rightarrow> int set \<Rightarrow> py_error + point" where
  "nbr_mean pts S =
     (if \<forall>j\<in>S. - int (length pts) \<le> j \<and> j < int (length pts)
      then Inr ((\<Sum>j\<in>S. axis 0 (np_row pts j)) / real (card S),
                (\<Sum>j\<in>S. axis 1 (np_row pts j)) / real (card S),
                (\<Sum>j\<in>S. axis 2 (np_row pts j)) / real (card S))
      else Inl IndexError)"

subsection \<open>Unpacking the flat face array\<close>

text \<open>
  \<^verbatim>\<open>while i < len(arr): n = arr[i]; faces.append(arr[i+1 : i+1+n]); i += 1 + n\<close>
  The loop need not end (an entry \<open>-1\<close> read as a count leaves \<open>i\<close> where it is).
\<close>

partial_function (option) parse_faces ::
  "int list \<Rightarrow> int \<Rightarrow> int list list \<Rightarrow> (py_error + int list list) option" where
  "parse_faces arr i faces =
     (if i < int (length arr) then
        (case np_get arr i of
           Inl e \<Rightarrow> Some (Inl e)
         | Inr n \<Rightarrow> parse_faces arr (i + (1 + n)) (faces @ [np_slice arr (i + 1) (i + 1 + n)]))
      else Some (Inr faces))"

declare parse_faces.simps [code]

subsection \<open>Connectivity: edge multiplicities, adjacency, boundary\<close>

text \<open>
  \<open>edge_count\<close> is a Python dict, listed in insertion order by \<open>items()\<close>: an association
  list with distinct keys. \<open>edge_count[e] = edge_count.get(e, 0) + 1\<close> keeps the place of
  a key that is already there and appends a new one.
\<close>

type_synonym edge = "int \<times> int"
type_synonym edge_count = "(edge \<times> nat) list"
type_synonym adjacency = "int \<rightharpoonup> int set"

definition dict_get :: "edge_count \<Rightarrow> edge \<Rightarrow> nat \<Rightarrow> nat" where
  "dict_get ec e d = (case map_of ec e of None \<Rightarrow> d | Some c \<Rightarrow> c)"

definition dict_incr :: "edge \<Rightarrow> edge_count \<Rightarrow> edge_count" where
  "dict_incr e ec = AList.update e (dict_get ec e 0 + 1) ec"

definition sorted_pair :: "int \<Rightarrow> int \<Rightarrow> edge" where
  "sorted_pair v1 v2 = (if v2 < v1 then (v2, v1) else (v1, v2))"

text \<open>The body of \<open>for j in range(m)\<close>, with its \<open>continue\<close> on a self-edge.\<close>

definition count_step :: "int list \<Rightarrow> nat \<Rightarrow> edge_count \<Rightarrow> edge_count" where
  "count_step face j ec =
     (let m = length face; v1 = face ! j; v2 = face ! ((j + 1) mod m)
      in if v1 = v2 then ec else dict_incr (sorted_pair v1 v2) ec)"

definition count_face :: "int list \<Rightarrow> edge_count \<Rightarrow> edge_count" where
  "count_face face ec = fold (count_step face) [0..<length face] ec"

definition count_edges :: "int list list \<Rightarrow> edge_count" where
  "count_edges faces = fold count_face faces []"

text \<open>\<open>adj = {v: set() for v in range(N)}\<close>\<close>

definition init_adj :: "nat \<Rightarrow> adjacency" where
  "init_adj N = (\<lambda>v. if 0 \<le> v \<and> v < int N then Some {} else None)"

text \<open>
  \<open>for (u, v), count in edge_count.items(): adj[u].add(v); adj[v].add(u)\<close>:
  a key that is not in \<open>adj\<close> raises KeyError, and the loop stops there.
\<close>

definition add_edge :: "adjacency \<Rightarrow> int \<Rightarrow> int \<Rightarrow> py_error + adjacency" where
  "add_edge adj u v =
     (case adj u of
        None \<Rightarrow> Inl KeyError
      | Some su \<Rightarrow>
          (case (adj(u \<mapsto> insert v su)) v of
             None \<Rightarrow> Inl KeyError
           | Some sv \<Rightarrow> Inr ((adj(u \<mapsto> insert v su))(v \<mapsto> insert u sv))))"

fun add_edges :: "adjacency \<Rightarrow> edge_count \<Rightarrow> py_error + adjacency" where
  "add_edges adj [] = Inr adj"
| "add_edges adj (((u, v), cnt) # rest) =
     (case add_edge adj u v of
        Inl e \<Rightarrow> Inl e
      | Inr adj' \<Rightarrow> add_edges adj' rest)"

text \<open>\<open>{u for (u, v), cnt in edge_count.items() if cnt == 1 for u in (u, v)}\<close>\<close>

definition boundary_verts :: "edge_count \<Rightarrow> int set" where
  "boundary_verts ec =
     set (concat (map (\<lambda>((u, v), cnt). [u, v]) (filter (\<lambda>((u, v), cnt). cnt = 1) ec)))"

text \<open>Lines 271 to 288 together: the adjacency map and the boundary set, or the exception.\<close>

definition connectivity :: "nat \<Rightarrow> int list list \<Rightarrow> py_error + (adjacency \<times> int set)" where
  "connectivity N faces =
     (case add_edges (init_adj N) (count_edges faces) of
        Inl e \<Rightarrow> Inl e
      | Inr adj \<Rightarrow> Inr (adj, boundary_verts (count_edges faces)))"

subsection \<open>Relaxation\<close>

text \<open>
  The body of \<open>for idx in range(N)\<close>: it reads \<open>new_pts\<close>, the array of the previous
  iteration, and writes \<open>temp\<close>, its copy.
\<close>

definition relax_point :: "real \<Rightarrow> point \<Rightarrow> point \<Rightarrow> point" where
  "relax_point lambd old nbr_avg = vadd old (vscale lambd (vsub nbr_avg old))"

definition smooth_vertex ::
  "adjacency \<Rightarrow> int set \<Rightarrow> real \<Rightarrow> point list \<Rightarrow> nat \<Rightarrow> point list \<Rightarrow> py_error + point list" where
  "smooth_vertex adj boundary lambd new_pts idx temp =
     (if int idx \<in> boundary then Inr temp
      else case adj (int idx) of
        None \<Rightarrow> Inl KeyError
      | Some nbrs \<Rightarrow>
          if card nbrs = 0 then Inr temp
          else (case nbr_mean new_pts nbrs of
                  Inl e \<Rightarrow> Inl e
                | Inr nbr_avg \<Rightarrow> Inr (temp[idx := relax_point lambd (new_pts ! idx) nbr_avg])))"

text \<open>
  One pass over the vertices in a given processing order; the program's order is
  \<open>range(N)\<close>, see \<open>smooth_pass\<close>.
\<close>

fun smooth_order ::
  "adjacency \<Rightarrow> int set \<Rightarrow> real \<Rightarrow> point list \<Rightarrow> nat list \<Rightarrow> point list \<Rightarrow> py_error + point list" where
  "smooth_order adj boundary lambd new_pts [] temp = Inr temp"
| "smooth_order adj boundary lambd new_pts (idx # rest) temp =
     (case smooth_vertex adj boundary lambd new_pts idx temp of
        Inl e \<Rightarrow> Inl e
      | Inr temp' \<Rightarrow> smooth_order adj boundary lambd new_pts rest temp')"

definition smooth_pass ::
  "adjacency \<Rightarrow> int set \<Rightarrow> real \<Rightarrow> point list \<Rightarrow> py_error + point list" where
  "smooth_pass adj boundary lambd new_pts =
     smooth_order adj boundary lambd new_pts [0..<length new_pts] new_pts"

text \<open>\<open>for _ in range(iterations)\<close>: \<open>new_pts = temp\<close> after each pass.\<close>

fun smooth_loop ::
  "adjacency \<Rightarrow> int set \<Rightarrow> real \<Rightarrow> nat \<Rightarrow> point list \<Rightarrow> py_error + point list" where
  "smooth_loop adj boundary lambd 0 new_pts = Inr new_pts"
| "smooth_loop adj boundary lambd (Suc k) new_pts =
     (case smooth_pass adj boundary lambd new_pts of
        Inl e \<Rightarrow> Inl e
      | Inr temp \<Rightarrow> smooth_loop adj boundary lambd k temp)"

subsection \<open>The whole function and its caller\<close>

text \<open>\<open>range(iterations)\<close> is empty for \<open>iterations \<le> 0\<close>: \<open>nat\<close> of it passes are made.\<close>

definition laplacian_smooth ::
  "point list \<Rightarrow> int list \<Rightarrow> real \<Rightarrow> int \<Rightarrow> (py_error + point list) option" where
  "laplacian_smooth points faces_arr lambd iterations =
     (case parse_faces faces_arr 0 [] of
        None \<Rightarrow> None
      | Some (Inl e) \<Rightarrow> Some (Inl e)
      | Some (Inr faces) \<Rightarrow>
          (case connectivity (length points) faces of
             Inl e \<Rightarrow> Some (Inl e)
           | Inr (adj, boundary) \<Rightarrow>
               Some (smooth_loop adj boundary lambd (nat iterations) points)))"

text \<open>
  \<open>apply_smoothing\<close>: the sliders hold integers, \<open>\<lambda> = value / 100.0\<close>; the new mesh pairs
  the returned points with \<open>original_mesh.faces\<close>. Only the two mesh fields of the
  window are kept.
\<close>

record mesh =
  points :: "point list"
  faces :: "int list"

record app =
  original_mesh :: "mesh option"
  smoothed_mesh :: "mesh option"

definition apply_smoothing :: "int \<Rightarrow> int \<Rightarrow> app \<Rightarrow> (py_error + app) option" where
  "apply_smoothing lambda_slider iter_slider st =
     (case original_mesh st of
        None \<Rightarrow> Some (Inr st)
      | Some m \<Rightarrow>
          (case laplacian_smooth (points m) (faces m) (real_of_int lambda_slider / 100) iter_slider of
             None \<Rightarrow> None
           | Some (Inl e) \<Rightarrow> Some (Inl e)
           | Some (Inr new_points) \<Rightarrow>
               Some (Inr (st\<lparr>smoothed_mesh := Some \<lparr>points = new_points, faces = faces m\<rparr>\<rparr>))))"

subsection \<open>Reference notions\<close>

text \<open>
  The notions in which the properties below are stated. \<open>encode\<close> is the flat PyVista
  layout of a list of faces: each face preceded by its length.
\<close>

definition encode :: "int list list \<Rightarrow> int list" where
  "encode fs = concat (map (\<lambda>f. int (length f) # f) fs)"

definition in_range :: "nat \<Rightarrow> int \<Rightarrow> bool" where
  "in_range N v = (0 \<le> v \<and> v < int N)"

text \<open>
  The edges of a face: its consecutive pairs, the closing pair included, without the pairs
  whose ends coincide, each with its smaller end first.
\<close>

definition face_edges :: "int list \<Rightarrow> edge list" where
  "face_edges face =
     map (\<lambda>(a, b). (min a b, max a b)) (filter (\<lambda>(a, b). a \<noteq> b) (zip face (rotate1 face)))"

definition all_edges :: "int list list \<Rightarrow> edge list" where
  "all_edges fs = concat (map face_edges fs)"

text \<open>Every edge of the face list joins two vertices of the point array.\<close>

definition edges_in_range :: "nat \<Rightarrow> int list list \<Rightarrow> bool" where
  "edges_in_range N fs = (\<forall>(u, v) \<in> set (all_edges fs). in_range N u \<and> in_range N v)"

text \<open>
  The multiplicity of an edge is the number of times the faces produce it. The boundary
  set, in the words of the specification: the vertices on at least one edge of
  multiplicity exactly 1.
\<close>

definition multiplicity :: "int list list \<Rightarrow> edge \<Rightarrow> nat" where
  "multiplicity fs e = count_list (all_edges fs) e"

definition spec_boundary :: "int list list \<Rightarrow> int set" where
  "spec_boundary fs = (\<Union>e\<in>{e \<in> set (all_edges fs). multiplicity fs e = 1}. {fst e, snd e})"

text \<open>The other ends of the counted edges at a vertex.\<close>

definition edge_nbrs :: "edge_count \<Rightarrow> int \<Rightarrow> int set" where
  "edge_nbrs ec w = {x. \<exists>c. ((w, x), c) \<in> set ec \<or> ((x, w), c) \<in> set ec}"

text \<open>
  What the connectivity pass guarantees about the adjacency map: every vertex of the point
  array is a key, and every neighbour is a vertex of the point array.
\<close>

definition adj_ok :: "nat \<Rightarrow> adjacency \<Rightarrow> bool" where
  "adj_ok N adj = (\<forall>i<N. \<exists>S. adj (int i) = Some S \<and> finite S \<and> (\<forall>x\<in>S. in_range N x))"

text \<open>The neighbour set of a vertex, and the arithmetic mean of the neighbours' positions.\<close>

definition neighbors :: "adjacency \<Rightarrow> nat \<Rightarrow> int set" where
  "neighbors adj i = (case adj (int i) of None \<Rightarrow> {} | Some S \<Rightarrow> S)"

definition neighbor_mean :: "point list \<Rightarrow> int set \<Rightarrow> point" where
  "neighbor_mean prev S =
     ((\<Sum>j\<in>S. axis 0 (prev ! nat j)) / real (card S),
      (\<Sum>j\<in>S. axis 1 (prev ! nat j)) / real (card S),
      (\<Sum>j\<in>S. axis 2 (prev ! nat j)) / real (card S))"

text \<open>
  The Jacobi update, in the words of the specification: a vertex of the boundary set or
  without neighbours keeps its previous position; every other vertex gets
  \<open>old + \<lambda> * (neighbor_mean - old)\<close>, all read from the previous array.
\<close>

definition jacobi_point :: "adjacency \<Rightarrow> int set \<Rightarrow> real \<Rightarrow> point list \<Rightarrow> nat \<Rightarrow> point" where
  "jacobi_point adj boundary lambd prev i =
     (if int i \<in> boundary \<or> neighbors adj i = {} then prev ! i
      else vadd (prev ! i) (vscale lambd (vsub (neighbor_mean prev (neighbors adj i)) (prev ! i))))"

definition jacobi_pass :: "adjacency \<Rightarrow> int set \<Rightarrow> real \<Rightarrow> point list \<Rightarrow> point list" where
  "jacobi_pass adj boundary lambd prev =
     map (jacobi_point adj boundary lambd prev) [0..<length prev]"

text \<open>The two results of a successful connectivity pass.\<close>

definition adj_of :: "nat \<Rightarrow> int list list \<Rightarrow> adjacency" where
  "adj_of N fs = fst (projr (connectivity N fs))"

definition boundary_of :: "nat \<Rightarrow> int list list \<Rightarrow> int set" where
  "boundary_of N fs = snd (projr (connectivity N fs))"

subsection \<open>Example meshes\<close>

text \<open>A tetrahedron: closed, every edge in two faces.\<close>

definition tetra_points :: "point list" where
  "tetra_points = [(0, 0, 0), (1, 0, 0), (0, 1, 0), (0, 0, 1)]"

definition tetra_fs :: "int list list" where
  "tetra_fs = [ [0, 1, 2], [0, 1, 3], [0, 2, 3], [1, 2, 3]]"

definition tetra_faces :: "int list" where
  "tetra_faces = [3, 0, 1, 2, 3, 0, 1, 3, 3, 0, 2, 3, 3, 1, 2, 3]"

text \<open>
  A fan of four triangles around vertex 0, whose rim 1..4 is the boundary, and a vertex 5
  that no face mentions.
\<close>

definition fan_points :: "point list" where
  "fan_points = [(1, 1, 5), (0, 0, 0), (4, 0, 0), (4, 4, 0), (0, 4, 0), (9, 9, 9)]"

definition fan_fs :: "int list list" where
  "fan_fs = [ [0, 1, 2], [0, 2, 3], [0, 3, 4], [0, 4, 1]]"

definition fan_faces :: "int list" where
  "fan_faces = [3, 0, 1, 2, 3, 0, 2, 3, 3, 0, 3, 4, 3, 0, 4, 1]"

section \<open>Properties\<close>

subsection \<open>The face array\<close>

lemma np_get_mid: "np_get (pre @ n # rest) (int (length pre)) = Inr n"
  by (simp add: np_get_def Let_def)

lemma np_slice_mid:
  "np_slice (pre @ n # f @ rest) (int (length pre) + 1) (int (length pre) + 1 + int (length f)) = f"
proof -
  have s: "clip_index (length (pre @ n # f @ rest)) (int (length pre) + 1) = length pre + 1"
    by (simp add: clip_index_def nat_add_distrib)
  have e: "clip_index (length (pre @ n # f @ rest)) (int (length pre) + 1 + int (length f))
             = length pre + 1 + length f"
    by (simp add: clip_index_def nat_add_distrib)
  have "drop (length pre + 1) (pre @ n # f @ rest) = f @ rest"
    by simp
  with s e show ?thesis
    unfolding np_slice_def Let_def by simp
qed

text \<open>On a well-formed array the unpacking loop ends and returns the faces.\<close>

lemma parse_encode:
  "parse_faces (pre @ encode fs) (int (length pre)) acc = Some (Inr (acc @ fs))"
proof (induction fs arbitrary: pre acc)
  case Nil
  show ?case by (subst parse_faces.simps) (simp add: encode_def)
next
  case (Cons f fs)
  let ?arr = "pre @ int (length f) # f @ encode fs"
  have arr: "pre @ encode (f # fs) = ?arr" by (simp add: encode_def)
  have ih: "parse_faces ((pre @ int (length f) # f) @ encode fs)
              (int (length (pre @ int (length f) # f))) (acc @ [f]) = Some (Inr ((acc @ [f]) @ fs))"
    by (rule Cons.IH)
  have step: "parse_faces ?arr (int (length pre)) acc
      = parse_faces ?arr (int (length pre) + (1 + int (length f))) (acc @ [f])"
    by (subst parse_faces.simps) (simp add: np_get_mid np_slice_mid)
  from ih step show ?case unfolding arr by (simp add: ac_simps)
qed

lemma parse_encode0: "parse_faces (encode fs) 0 [] = Some (Inr fs)"
  using parse_encode [of "[]" fs "[]"] by simp

subsection \<open>Edge multiplicities and the boundary set\<close>

lemma sorted_pair_min_max: "sorted_pair a b = (min a b, max a b)"
  by (simp add: sorted_pair_def min_def max_def)

lemma zip_rotate1:
  "zip face (rotate1 face) = map (\<lambda>j. (face ! j, face ! ((j + 1) mod length face))) [0..<length face]"
  by (rule nth_equalityI) (simp_all add: nth_rotate1)

lemma fold_skip:
  "fold (\<lambda>j ec. if P j then ec else f (g j) ec) js ec = fold f (map g (filter (\<lambda>j. \<not> P j) js)) ec"
  by (induction js arbitrary: ec) simp_all

lemma count_face_fold: "count_face face ec = fold dict_incr (face_edges face) ec"
proof -
  have "count_step face = (\<lambda>j ec. if face ! j = face ! ((j + 1) mod length face) then ec
          else dict_incr (sorted_pair (face ! j) (face ! ((j + 1) mod length face))) ec)"
    by (intro ext) (simp add: count_step_def Let_def)
  then have "count_face face ec
      = fold dict_incr (map (\<lambda>j. sorted_pair (face ! j) (face ! ((j + 1) mod length face)))
          (filter (\<lambda>j. face ! j \<noteq> face ! ((j + 1) mod length face)) [0..<length face])) ec"
    unfolding count_face_def
    using fold_skip [of "\<lambda>j. face ! j = face ! ((j + 1) mod length face)" dict_incr
        "\<lambda>j. sorted_pair (face ! j) (face ! ((j + 1) mod length face))" "[0..<length face]" ec]
    by simp
  also have "map (\<lambda>j. sorted_pair (face ! j) (face ! ((j + 1) mod length face)))
          (filter (\<lambda>j. face ! j \<noteq> face ! ((j + 1) mod length face)) [0..<length face])
      = face_edges face"
    unfolding face_edges_def zip_rotate1
    by (simp add: filter_map comp_def sorted_pair_min_max)
  finally show ?thesis .
qed

lemma count_edges_fold_gen: "fold count_face fs ec = fold dict_incr (all_edges fs) ec"
  by (induction fs arbitrary: ec) (simp_all add: all_edges_def count_face_fold)

lemma count_edges_fold: "count_edges fs = fold dict_incr (all_edges fs) []"
  by (simp add: count_edges_def count_edges_fold_gen)

lemma map_of_dict_incr:
  "map_of (dict_incr e ec) e' = (if e' = e then Some (dict_get ec e 0 + 1) else map_of ec e')"
  by (simp add: dict_incr_def update_conv')

lemma dict_get_incr:
  "dict_get (dict_incr e ec) e' 0 = (if e' = e then dict_get ec e 0 + 1 else dict_get ec e' 0)"
  by (simp add: dict_get_def map_of_dict_incr)

lemma map_of_fold_incr:
  "map_of (fold dict_incr es ec) e =
     (if count_list es e = 0 then map_of ec e else Some (dict_get ec e 0 + count_list es e))"
proof (induction es arbitrary: ec)
  case Nil
  show ?case by simp
next
  case (Cons a es)
  show ?case
    by (simp add: Cons.IH map_of_dict_incr dict_get_incr)
qed

lemma distinct_fold_incr:
  "distinct (map fst ec) \<Longrightarrow> distinct (map fst (fold dict_incr es ec))"
  by (induction es arbitrary: ec) (simp_all add: dict_incr_def distinct_update)

lemma map_of_count_edges:
  "map_of (count_edges fs) e = (if multiplicity fs e = 0 then None else Some (multiplicity fs e))"
  by (simp add: count_edges_fold map_of_fold_incr multiplicity_def dict_get_def)

lemma distinct_count_edges: "distinct (map fst (count_edges fs))"
  by (simp add: count_edges_fold distinct_fold_incr)

lemma count_edges_entry:
  "((e, c) \<in> set (count_edges fs)) = (c \<noteq> 0 \<and> multiplicity fs e = c)"
  using map_of_eq_Some_iff [OF distinct_count_edges, of fs e c]
  by (auto simp: map_of_count_edges split: if_splits)

lemma boundary_verts_set:
  "boundary_verts ec = {w. \<exists>u v. ((u, v), 1) \<in> set ec \<and> (w = u \<or> w = v)}"
  unfolding boundary_verts_def by (auto split: prod.splits; blast)

lemma multiplicity_pos_iff: "(multiplicity fs e \<noteq> 0) = (e \<in> set (all_edges fs))"
  by (simp add: multiplicity_def count_list_0_iff)

lemma boundary_spec: "boundary_verts (count_edges fs) = spec_boundary fs"
proof -
  have "{e \<in> set (all_edges fs). multiplicity fs e = 1} = {e. multiplicity fs e = 1}"
  proof -
    have "e \<in> set (all_edges fs)" if "multiplicity fs e = 1" for e
      using multiplicity_pos_iff [of fs e] that by simp
    then show ?thesis by blast
  qed
  then have "spec_boundary fs = (\<Union>e\<in>{e. multiplicity fs e = 1}. {fst e, snd e})"
    by (simp add: spec_boundary_def)
  also have "\<dots> = {w. \<exists>u v. multiplicity fs (u, v) = 1 \<and> (w = u \<or> w = v)}"
    by (auto; blast)
  finally show ?thesis
    by (simp add: boundary_verts_set count_edges_entry)
qed

subsection \<open>Building the adjacency map\<close>

lemma edge_nbrs_Nil [simp]: "edge_nbrs [] w = {}"
  by (simp add: edge_nbrs_def)

lemma edge_nbrs_Cons:
  "edge_nbrs (((u, v), c) # rest) w =
     (if w = u then {v} else {}) \<union> (if w = v then {u} else {}) \<union> edge_nbrs rest w"
  by (auto simp: edge_nbrs_def)

lemma add_edge_dom:
  "add_edge adj u v = Inr adj2 \<Longrightarrow> dom adj2 = dom adj \<and> u \<in> dom adj \<and> v \<in> dom adj"
  unfolding add_edge_def by (auto split: option.splits if_splits)

lemma add_edge_value:
  "add_edge adj u v = Inr adj2 \<Longrightarrow> adj w = Some S \<Longrightarrow>
     adj2 w = Some (S \<union> (if w = u then {v} else {}) \<union> (if w = v then {u} else {}))"
  unfolding add_edge_def by (auto split: option.splits if_splits)

lemma add_edge_ok: "u \<in> dom adj \<Longrightarrow> v \<in> dom adj \<Longrightarrow> \<exists>adj2. add_edge adj u v = Inr adj2"
  unfolding add_edge_def by (auto split: option.splits if_splits)

lemma add_edge_error:
  "add_edge adj u v = Inl e \<Longrightarrow> e = KeyError \<and> (u \<notin> dom adj \<or> v \<notin> dom adj)"
  unfolding add_edge_def by (auto split: option.splits if_splits)

lemma add_edges_dom: "add_edges adj ec = Inr adj' \<Longrightarrow> dom adj' = dom adj"
proof (induction adj ec rule: add_edges.induct)
  case (1 adj)
  then show ?case by simp
next
  case (2 adj u v cnt rest)
  from "2.prems" obtain adj2 where s: "add_edge adj u v = Inr adj2" and r: "add_edges adj2 rest = Inr adj'"
    by (auto split: sum.splits)
  from "2.IH" [OF s r] add_edge_dom [OF s] show ?case by simp
qed

lemma add_edges_value:
  "add_edges adj ec = Inr adj' \<Longrightarrow> adj w = Some S \<Longrightarrow> adj' w = Some (S \<union> edge_nbrs ec w)"
proof (induction adj ec arbitrary: S rule: add_edges.induct)
  case (1 adj)
  then show ?case by simp
next
  case (2 adj u v cnt rest)
  from "2.prems" obtain adj2 where s: "add_edge adj u v = Inr adj2" and r: "add_edges adj2 rest = Inr adj'"
    by (auto split: sum.splits)
  from "2.IH" [OF s r add_edge_value [OF s "2.prems"(2)]] show ?case
    by (simp add: edge_nbrs_Cons Un_assoc)
qed

lemma add_edges_ok:
  "(\<forall>((u, v), c) \<in> set ec. u \<in> dom adj \<and> v \<in> dom adj) \<Longrightarrow> \<exists>adj'. add_edges adj ec = Inr adj'"
proof (induction adj ec rule: add_edges.induct)
  case (1 adj)
  then show ?case by simp
next
  case (2 adj u v cnt rest)
  from "2.prems" have "u \<in> dom adj" "v \<in> dom adj" by auto
  then obtain adj2 where s: "add_edge adj u v = Inr adj2"
    using add_edge_ok by blast
  from add_edge_dom [OF s] "2.prems"
  have "\<forall>((a, b), c) \<in> set rest. a \<in> dom adj2 \<and> b \<in> dom adj2" by simp
  from "2.IH" [OF s this] s show ?case by simp
qed

lemma add_edges_bad:
  "((u, v), c) \<in> set ec \<Longrightarrow> u \<notin> dom adj \<or> v \<notin> dom adj \<Longrightarrow> add_edges adj ec = Inl KeyError"
proof (induction adj ec rule: add_edges.induct)
  case (1 adj)
  then show ?case by simp
next
  case (2 adj a b cnt rest)
  show ?case
  proof (cases "add_edge adj a b")
    case (Inl e)
    with add_edge_error [OF Inl] show ?thesis by simp
  next
    case (Inr adj2)
    from add_edge_dom [OF Inr] "2.prems" have "((u, v), c) \<in> set rest"
      by auto
    from "2.IH" [OF Inr this] "2.prems"(2) add_edge_dom [OF Inr] Inr show ?thesis
      by simp
  qed
qed

lemma add_edges_error: "add_edges adj ec = Inl e \<Longrightarrow> e = KeyError"
proof (induction adj ec rule: add_edges.induct)
  case (1 adj)
  then show ?case by simp
next
  case (2 adj u v cnt rest)
  then show ?case
    by (auto split: sum.splits dest: add_edge_error)
qed

subsection \<open>The connectivity pass as a whole\<close>

lemma dom_init_adj: "dom (init_adj N) = {v. in_range N v}"
  by (auto simp: init_adj_def in_range_def split: if_splits)

lemma count_edges_keys: "(\<exists>c. (e, c) \<in> set (count_edges fs)) = (e \<in> set (all_edges fs))"
proof -
  have "(\<exists>c. c \<noteq> 0 \<and> multiplicity fs e = c) = (multiplicity fs e \<noteq> 0)"
    by blast
  then show ?thesis
    by (simp only: count_edges_entry multiplicity_pos_iff)
qed

lemma edge_nbrs_count_edges:
  "edge_nbrs (count_edges fs) w = {x. (w, x) \<in> set (all_edges fs) \<or> (x, w) \<in> set (all_edges fs)}"
  unfolding edge_nbrs_def ex_disj_distrib count_edges_keys ..

lemma connectivity_ok:
  assumes "edges_in_range N fs"
  shows "\<exists>adj. connectivity N fs = Inr (adj, spec_boundary fs)"
proof -
  have "\<forall>((u, v), c) \<in> set (count_edges fs). u \<in> dom (init_adj N) \<and> v \<in> dom (init_adj N)"
  proof (clarify)
    fix u v c
    assume "((u, v), c) \<in> set (count_edges fs)"
    then have "(u, v) \<in> set (all_edges fs)"
      using count_edges_keys [of "(u, v)" fs] by blast
    with assms show "u \<in> dom (init_adj N) \<and> v \<in> dom (init_adj N)"
      unfolding edges_in_range_def dom_init_adj by blast
  qed
  from add_edges_ok [OF this] show ?thesis
    by (auto simp: connectivity_def boundary_spec)
qed

lemma connectivity_bad:
  assumes "\<not> edges_in_range N fs"
  shows "connectivity N fs = Inl KeyError"
proof -
  from assms obtain u v where e: "(u, v) \<in> set (all_edges fs)" and r: "\<not> in_range N u \<or> \<not> in_range N v"
    by (auto simp: edges_in_range_def)
  from e obtain c where "((u, v), c) \<in> set (count_edges fs)"
    using count_edges_keys [of "(u, v)" fs] by blast
  from add_edges_bad [OF this, of "init_adj N"] r show ?thesis
    by (simp add: connectivity_def dom_init_adj)
qed

lemma connectivity_result:
  assumes "connectivity N fs = Inr (adj, bnd)"
  shows "bnd = spec_boundary fs"
    and "adj w = (if in_range N w
                  then Some {x. (w, x) \<in> set (all_edges fs) \<or> (x, w) \<in> set (all_edges fs)}
                  else None)"
    and "edges_in_range N fs"
proof -
  from assms have a: "add_edges (init_adj N) (count_edges fs) = Inr adj"
    and b: "bnd = boundary_verts (count_edges fs)"
    by (auto simp: connectivity_def split: sum.splits)
  from b show "bnd = spec_boundary fs" by (simp add: boundary_spec)
  show "adj w = (if in_range N w
                  then Some {x. (w, x) \<in> set (all_edges fs) \<or> (x, w) \<in> set (all_edges fs)}
                  else None)"
  proof (cases "in_range N w")
    case True
    then have "init_adj N w = Some {}" by (simp add: init_adj_def in_range_def)
    from add_edges_value [OF a this] True show ?thesis
      by (simp add: edge_nbrs_count_edges)
  next
    case False
    then have "w \<notin> dom adj" using add_edges_dom [OF a] by (simp add: dom_init_adj)
    with False show ?thesis by auto
  qed
  show "edges_in_range N fs"
    using connectivity_bad [of N fs] assms by auto
qed

lemma connectivity_error: "connectivity N fs = Inl e \<Longrightarrow> e = KeyError \<and> \<not> edges_in_range N fs"
  using connectivity_ok [of N fs] connectivity_bad [of N fs] by (cases "edges_in_range N fs") auto

lemma connectivity_neighbors:
  assumes "connectivity N fs = Inr (adj, bnd)" and "adj w = Some S" and "x \<in> S"
  shows "in_range N x"
proof -
  from connectivity_result(2) [OF assms(1), of w] assms(2,3)
  have "(w, x) \<in> set (all_edges fs) \<or> (x, w) \<in> set (all_edges fs)"
    by (auto split: if_splits)
  with connectivity_result(3) [OF assms(1)] show ?thesis
    by (auto simp: edges_in_range_def)
qed

lemma connectivity_finite:
  assumes "connectivity N fs = Inr (adj, bnd)" and "adj w = Some S"
  shows "finite S"
proof -
  have "S \<subseteq> {x. in_range N x}" using connectivity_neighbors [OF assms] by auto
  moreover have "{x. in_range N x} = {0..<int N}" by (auto simp: in_range_def)
  ultimately show ?thesis using finite_subset by fastforce
qed

subsection \<open>One pass is a Jacobi update\<close>

lemma connectivity_adj_ok:
  assumes "connectivity N fs = Inr (adj, bnd)"
  shows "adj_ok N adj"
  unfolding adj_ok_def
proof (intro allI impI)
  fix i assume "i < N"
  then have "in_range N (int i)" by (simp add: in_range_def)
  with connectivity_result(2) [OF assms, of "int i"] obtain S where S: "adj (int i) = Some S"
    by auto
  from connectivity_finite [OF assms S] connectivity_neighbors [OF assms S] S
  show "\<exists>S. adj (int i) = Some S \<and> finite S \<and> (\<forall>x\<in>S. in_range N x)"
    by blast
qed

lemma nbr_mean_ok:
  assumes "\<forall>x\<in>S. in_range (length pts) x"
  shows "nbr_mean pts S = Inr (neighbor_mean pts S)"
proof -
  have r: "np_row pts j = pts ! nat j" if "j \<in> S" for j
    using assms that by (auto simp: np_row_def in_range_def)
  have "(\<Sum>j\<in>S. axis k (np_row pts j)) = (\<Sum>j\<in>S. axis k (pts ! nat j))" for k
    by (rule sum.cong) (simp_all add: r)
  moreover have "\<forall>j\<in>S. - int (length pts) \<le> j \<and> j < int (length pts)"
    using assms by (auto simp: in_range_def)
  ultimately show ?thesis
    by (simp add: nbr_mean_def neighbor_mean_def)
qed

lemma smooth_vertex_ok:
  assumes ok: "adj_ok (length new_pts) adj" and idx: "idx < length new_pts"
    and fixed: "int idx \<in> boundary \<or> neighbors adj idx = {} \<Longrightarrow> temp ! idx = new_pts ! idx"
    and len: "length temp = length new_pts"
  shows "smooth_vertex adj boundary lambd new_pts idx temp
           = Inr (temp[idx := jacobi_point adj boundary lambd new_pts idx])"
proof -
  from ok idx obtain S where S: "adj (int idx) = Some S" "finite S" "\<forall>x\<in>S. in_range (length new_pts) x"
    unfolding adj_ok_def by blast
  have n: "neighbors adj idx = S" by (simp add: neighbors_def S)
  show ?thesis
  proof (cases "int idx \<in> boundary \<or> S = {}")
    case True
    with n have "jacobi_point adj boundary lambd new_pts idx = temp ! idx"
      using fixed by (auto simp: jacobi_point_def)
    then have "temp[idx := jacobi_point adj boundary lambd new_pts idx] = temp"
      by simp
    with True S show ?thesis
      by (auto simp: smooth_vertex_def)
  next
    case False
    with S have "card S \<noteq> 0" by simp
    with False S n nbr_mean_ok [OF S(3)] show ?thesis
      by (simp add: smooth_vertex_def jacobi_point_def relax_point_def)
  qed
qed

lemma smooth_order_ok:
  assumes ok: "adj_ok (length new_pts) adj"
    and ord: "set order \<subseteq> {0..<length new_pts}"
    and len: "length temp = length new_pts"
    and inv: "\<forall>i<length new_pts. temp ! i =
               (if i \<in> V then jacobi_point adj boundary lambd new_pts i else new_pts ! i)"
  shows "\<exists>out. smooth_order adj boundary lambd new_pts order temp = Inr out
           \<and> length out = length new_pts
           \<and> (\<forall>i<length new_pts. out ! i =
                 (if i \<in> V \<union> set order then jacobi_point adj boundary lambd new_pts i
                  else new_pts ! i))"
  using ord len inv
proof (induction order arbitrary: temp V)
  case Nil
  then show ?case by simp
next
  case (Cons idx rest)
  let ?J = "jacobi_point adj boundary lambd new_pts"
  from Cons.prems(1) have idx: "idx < length new_pts" by simp
  have fixed: "temp ! idx = new_pts ! idx" if "int idx \<in> boundary \<or> neighbors adj idx = {}"
    using Cons.prems(3) idx that by (auto simp: jacobi_point_def)
  let ?temp' = "temp[idx := ?J idx]"
  have step: "smooth_vertex adj boundary lambd new_pts idx temp = Inr ?temp'"
    by (rule smooth_vertex_ok [OF ok idx fixed Cons.prems(2)])
  have inv': "\<forall>i<length new_pts. ?temp' ! i = (if i \<in> insert idx V then ?J i else new_pts ! i)"
  proof (intro allI impI)
    fix i assume i: "i < length new_pts"
    show "?temp' ! i = (if i \<in> insert idx V then ?J i else new_pts ! i)"
    proof (cases "i = idx")
      case True
      with i Cons.prems(2) show ?thesis by simp
    next
      case False
      with i Cons.prems(3) show ?thesis by simp
    qed
  qed
  from Cons.prems(1) have "set rest \<subseteq> {0..<length new_pts}" by simp
  from Cons.IH [OF this _ inv'] Cons.prems(2) step show ?case
    by simp
qed

lemma length_jacobi_pass [simp]: "length (jacobi_pass adj boundary lambd prev) = length prev"
  by (simp add: jacobi_pass_def)

lemma nth_jacobi_pass:
  "i < length prev \<Longrightarrow> jacobi_pass adj boundary lambd prev ! i = jacobi_point adj boundary lambd prev i"
  by (simp add: jacobi_pass_def)

lemma smooth_order_jacobi:
  assumes ok: "adj_ok (length new_pts) adj" and ord: "set order = {0..<length new_pts}"
  shows "smooth_order adj boundary lambd new_pts order new_pts
           = Inr (jacobi_pass adj boundary lambd new_pts)"
proof -
  from ord have sub: "set order \<subseteq> {0..<length new_pts}" by simp
  have "\<forall>i<length new_pts. new_pts ! i =
          (if i \<in> {} then jacobi_point adj boundary lambd new_pts i else new_pts ! i)"
    by simp
  from smooth_order_ok [OF ok sub refl this] obtain out
    where out: "smooth_order adj boundary lambd new_pts order new_pts = Inr out"
      and len: "length out = length new_pts"
      and nth: "\<forall>i<length new_pts. out ! i =
                 (if i \<in> {} \<union> set order then jacobi_point adj boundary lambd new_pts i
                  else new_pts ! i)"
    by blast
  have "out = jacobi_pass adj boundary lambd new_pts"
    by (rule nth_equalityI) (use len nth ord in \<open>simp_all add: nth_jacobi_pass\<close>)
  with out show ?thesis by simp
qed

lemma smooth_pass_jacobi:
  "adj_ok (length new_pts) adj \<Longrightarrow>
     smooth_pass adj boundary lambd new_pts = Inr (jacobi_pass adj boundary lambd new_pts)"
  unfolding smooth_pass_def by (rule smooth_order_jacobi) simp_all

lemma length_jacobi_funpow [simp]:
  "length ((jacobi_pass adj boundary lambd ^^ k) pts) = length pts"
  by (induction k) simp_all

lemma smooth_loop_jacobi:
  "adj_ok (length pts) adj \<Longrightarrow>
     smooth_loop adj boundary lambd k pts = Inr ((jacobi_pass adj boundary lambd ^^ k) pts)"
proof (induction k arbitrary: pts)
  case 0
  show ?case by simp
next
  case (Suc k)
  have "adj_ok (length (jacobi_pass adj boundary lambd pts)) adj"
    using Suc.prems by simp
  from Suc.IH [OF this] smooth_pass_jacobi [OF Suc.prems] show ?case
    by (simp add: funpow_swap1)
qed

subsection \<open>The whole call\<close>

lemma laplacian_smooth_run:
  assumes "parse_faces faces_arr 0 [] = Some (Inr fs)"
    and "connectivity (length pts) fs = Inr (adj, bnd)"
  shows "laplacian_smooth pts faces_arr lambd iterations
           = Some (Inr ((jacobi_pass adj bnd lambd ^^ nat iterations) pts))"
  using assms smooth_loop_jacobi [OF connectivity_adj_ok [OF assms(2)]]
  by (simp add: laplacian_smooth_def)

lemma laplacian_smooth_key_error:
  assumes "parse_faces faces_arr 0 [] = Some (Inr fs)"
    and "\<not> edges_in_range (length pts) fs"
  shows "laplacian_smooth pts faces_arr lambd iterations = Some (Inl KeyError)"
  using assms connectivity_bad [OF assms(2)]
  by (simp add: laplacian_smooth_def)

text \<open>Whether the call raises does not depend on the two parameters.\<close>

lemma laplacian_smooth_error_params:
  assumes "laplacian_smooth pts faces_arr lambd iterations = Some (Inl e)"
  shows "laplacian_smooth pts faces_arr lambd' iterations' = Some (Inl e)"
proof (cases "parse_faces faces_arr 0 []")
  case None
  with assms show ?thesis by (simp add: laplacian_smooth_def)
next
  case (Some r)
  show ?thesis
  proof (cases r)
    case (Inl e')
    with Some assms show ?thesis by (simp add: laplacian_smooth_def)
  next
    case (Inr fs)
    show ?thesis
    proof (cases "connectivity (length pts) fs")
      case (Inl e')
      with Some Inr assms show ?thesis by (simp add: laplacian_smooth_def)
    next
      case c: (Inr ab)
      obtain adj bnd where "ab = (adj, bnd)" by (cases ab)
      with c Some Inr laplacian_smooth_run [of faces_arr fs pts adj bnd lambd iterations] assms
      show ?thesis by simp
    qed
  qed
qed

lemma jacobi_point_fixed:
  "int i \<in> bnd \<or> neighbors adj i = {} \<Longrightarrow> jacobi_point adj bnd lambd prev i = prev ! i"
  by (simp add: jacobi_point_def)

lemma jacobi_funpow_fixed:
  assumes "int i \<in> bnd \<or> neighbors adj i = {}" and "i < length pts"
  shows "(jacobi_pass adj bnd lambd ^^ k) pts ! i = pts ! i"
proof (induction k)
  case 0
  show ?case by simp
next
  case (Suc k)
  from assms(2) have "i < length ((jacobi_pass adj bnd lambd ^^ k) pts)" by simp
  then show ?case
    using Suc.IH assms(1) by (simp add: nth_jacobi_pass jacobi_point_fixed)
qed

lemma face_edges_subset:
  assumes "(u, v) \<in> set (face_edges face)"
  shows "u \<in> set face \<and> v \<in> set face"
proof -
  from assms obtain a b where ab: "(a, b) \<in> set (zip face (rotate1 face))"
    and uv: "(u, v) = (min a b, max a b)"
    by (auto simp: face_edges_def)
  from ab have "a \<in> set face" "b \<in> set face"
    by (auto dest: set_zip_leftD set_zip_rightD)
  with uv show ?thesis by (auto simp: min_def max_def)
qed

lemma all_edges_subset:
  assumes "(u, v) \<in> set (all_edges fs)"
  shows "\<exists>f\<in>set fs. u \<in> set f \<and> v \<in> set f"
  using assms face_edges_subset by (fastforce simp: all_edges_def)

lemma unreferenced_no_neighbors:
  assumes "connectivity N fs = Inr (adj, bnd)" and "\<forall>f\<in>set fs. int i \<notin> set f"
  shows "neighbors adj i = {}"
proof -
  have "{x. (int i, x) \<in> set (all_edges fs) \<or> (x, int i) \<in> set (all_edges fs)} = {}"
    using assms(2) all_edges_subset by blast
  with connectivity_result(2) [OF assms(1), of "int i"] show ?thesis
    by (simp add: neighbors_def)
qed

subsection \<open>The properties the specification states\<close>

lemma connectivity_of:
  "edges_in_range N fs \<Longrightarrow> connectivity N fs = Inr (adj_of N fs, boundary_of N fs)"
  using connectivity_ok [of N fs] by (auto simp: adj_of_def boundary_of_def)

lemma parse_tetra: "parse_faces tetra_faces 0 [] = Some (Inr tetra_fs)"
  by code_simp

lemma parse_fan: "parse_faces fan_faces 0 [] = Some (Inr fan_fs)"
  by code_simp

lemma range_tetra: "edges_in_range 4 tetra_fs"
  by code_simp

lemma range_fan: "edges_in_range 6 fan_fs"
  by code_simp

lemma length_examples: "length tetra_points = 4" "length fan_points = 6"
  by (simp_all add: tetra_points_def fan_points_def)

lemma connectivity_fan:
  "connectivity (length fan_points) fan_fs = Inr (adj_of 6 fan_fs, boundary_of 6 fan_fs)"
  using connectivity_of [OF range_fan] by (simp add: length_examples)

lemma connectivity_tetra:
  "connectivity (length tetra_points) tetra_fs = Inr (adj_of 4 tetra_fs, boundary_of 4 tetra_fs)"
  using connectivity_of [OF range_tetra] by (simp add: length_examples)

text \<open>
  C2. A vertex of the boundary set, and a vertex with an empty neighbour set (in particular
  one that no face mentions), has in the returned array the position it has in the input
  array, for every smoothing factor and iteration count.
\<close>

theorem fixed_vertices_unchanged:
  assumes "parse_faces faces_arr 0 [] = Some (Inr fs)"
    and "connectivity (length pts) fs = Inr (adj, bnd)"
    and "i < length pts"
    and "int i \<in> bnd \<or> neighbors adj i = {} \<or> (\<forall>f\<in>set fs. int i \<notin> set f)"
  shows "\<exists>out. laplacian_smooth pts faces_arr lambd iterations = Some (Inr out)
           \<and> out ! i = pts ! i"
proof -
  from assms(4) unreferenced_no_neighbors [OF assms(2), of i]
  have "int i \<in> bnd \<or> neighbors adj i = {}" by blast
  from jacobi_funpow_fixed [OF this assms(3)] laplacian_smooth_run [OF assms(1,2)]
  show ?thesis by simp
qed

theorem fixed_vertices_unchanged_witness:
  "int 1 \<in> boundary_of 6 fan_fs
   \<and> (\<exists>out. laplacian_smooth fan_points fan_faces (1 / 2) 3 = Some (Inr out)
          \<and> out ! 1 = fan_points ! 1)
   \<and> neighbors (adj_of 6 fan_fs) 5 = {}
   \<and> (\<exists>out. laplacian_smooth fan_points fan_faces (1 / 2) 3 = Some (Inr out)
          \<and> out ! 5 = fan_points ! 5)"
proof -
  have b: "int 1 \<in> boundary_of 6 fan_fs" by code_simp
  have n: "neighbors (adj_of 6 fan_fs) 5 = {}" by code_simp
  have l1: "(1::nat) < length fan_points" and l5: "(5::nat) < length fan_points"
    by (simp_all add: length_examples)
  from b n
    fixed_vertices_unchanged [OF parse_fan connectivity_fan l1, of "1 / 2" 3]
    fixed_vertices_unchanged [OF parse_fan connectivity_fan l5, of "1 / 2" 3]
  show ?thesis by blast
qed

text \<open>
  C7. The returned vertex array has the length of the input array, and its row \<open>i\<close> is
  the position of vertex \<open>i\<close>: after every pass row \<open>i\<close> is the update of row \<open>i\<close> of the
  array before, computed with the neighbours that the faces give vertex \<open>i\<close>, and a
  vertex that is not relaxed keeps row \<open>i\<close> of the input. The smoothed mesh that
  \<open>apply_smoothing\<close> stores pairs this array with the face array of the original mesh,
  which is left as it was.
\<close>

theorem shape_preserved:
  assumes "original_mesh st = Some m"
    and "parse_faces (faces m) 0 [] = Some (Inr fs)"
    and "connectivity (length (points m)) fs = Inr (adj, bnd)"
  shows "laplacian_smooth (points m) (faces m) lambd iterations
           = Some (Inr ((jacobi_pass adj bnd lambd ^^ nat iterations) (points m)))
       \<and> length ((jacobi_pass adj bnd lambd ^^ nat iterations) (points m)) = length (points m)
       \<and> (\<forall>k i. i < length (points m) \<longrightarrow>
             (jacobi_pass adj bnd lambd ^^ Suc k) (points m) ! i
               = jacobi_point adj bnd lambd ((jacobi_pass adj bnd lambd ^^ k) (points m)) i)
       \<and> (\<forall>i. i < length (points m) \<and> (int i \<in> bnd \<or> neighbors adj i = {}) \<longrightarrow>
             (jacobi_pass adj bnd lambd ^^ nat iterations) (points m) ! i = points m ! i)
       \<and> apply_smoothing lambda_slider iter_slider st
           = Some (Inr (st\<lparr>smoothed_mesh := Some
               \<lparr>points = (jacobi_pass adj bnd (real_of_int lambda_slider / 100) ^^ nat iter_slider)
                           (points m),
                faces = faces m\<rparr>\<rparr>))"
proof -
  note run = laplacian_smooth_run [OF assms(2,3)]
  have rows: "\<forall>k i. i < length (points m) \<longrightarrow>
             (jacobi_pass adj bnd lambd ^^ Suc k) (points m) ! i
               = jacobi_point adj bnd lambd ((jacobi_pass adj bnd lambd ^^ k) (points m)) i"
    by (simp add: nth_jacobi_pass)
  have fixed: "\<forall>i. i < length (points m) \<and> (int i \<in> bnd \<or> neighbors adj i = {}) \<longrightarrow>
             (jacobi_pass adj bnd lambd ^^ nat iterations) (points m) ! i = points m ! i"
    using jacobi_funpow_fixed by blast
  have app: "apply_smoothing lambda_slider iter_slider st
           = Some (Inr (st\<lparr>smoothed_mesh := Some
               \<lparr>points = (jacobi_pass adj bnd (real_of_int lambda_slider / 100) ^^ nat iter_slider)
                           (points m),
                faces = faces m\<rparr>\<rparr>))"
    using assms(1) run by (simp add: apply_smoothing_def)
  from run [of lambd iterations] rows fixed app show ?thesis
    by simp
qed

theorem shape_preserved_witness:
  "laplacian_smooth fan_points fan_faces (1 / 4) 2
     = Some (Inr [(23 / 16, 23 / 16, 45 / 16), (0, 0, 0), (4, 0, 0), (4, 4, 0), (0, 4, 0),
                  (9, 9, 9)])
   \<and> length ((jacobi_pass (adj_of 6 fan_fs) (boundary_of 6 fan_fs) (1 / 4) ^^ nat 2) fan_points)
       = length fan_points
   \<and> apply_smoothing 50 2
        \<lparr>original_mesh = Some \<lparr>points = fan_points, faces = fan_faces\<rparr>, smoothed_mesh = None\<rparr>
       = Some (Inr \<lparr>original_mesh = Some \<lparr>points = fan_points, faces = fan_faces\<rparr>,
                    smoothed_mesh = Some
                      \<lparr>points = [(7 / 4, 7 / 4, 5 / 4), (0, 0, 0), (4, 0, 0), (4, 4, 0), (0, 4, 0),
                                 (9, 9, 9)],
                       faces = fan_faces\<rparr>\<rparr>)"
proof -
  have a: "(jacobi_pass (adj_of 6 fan_fs) (boundary_of 6 fan_fs) (1 / 4) ^^ nat 2) fan_points
     = [(23 / 16, 23 / 16, 45 / 16), (0, 0, 0), (4, 0, 0), (4, 4, 0), (0, 4, 0), (9, 9, 9)]"
    by code_simp
  have b: "(jacobi_pass (adj_of 6 fan_fs) (boundary_of 6 fan_fs) (real_of_int 50 / 100) ^^ nat 2)
             fan_points
     = [(7 / 4, 7 / 4, 5 / 4), (0, 0, 0), (4, 0, 0), (4, 4, 0), (0, 4, 0), (9, 9, 9)]"
    by code_simp
  from shape_preserved [where st = "\<lparr>original_mesh = Some \<lparr>points = fan_points, faces = fan_faces\<rparr>,
        smoothed_mesh = None\<rparr>" and m = "\<lparr>points = fan_points, faces = fan_faces\<rparr>"
        and fs = fan_fs and adj = "adj_of 6 fan_fs" and bnd = "boundary_of 6 fan_fs"
        and lambd = "1 / 4" and iterations = 2 and lambda_slider = 50 and iter_slider = 2]
    parse_fan connectivity_fan a b
  show ?thesis by (simp add: length_examples)
qed

text \<open>
  C1. One iteration is a Jacobi update: every vertex outside the boundary set with a
  neighbour gets its previous position plus the smoothing factor times the difference
  between the mean of its neighbours' previous positions and its own; the pass gives the
  same array in whatever order the vertices are processed; and the call makes
  \<open>iterations\<close> such passes, each from the array of the pass before.
\<close>

theorem jacobi_update:
  assumes "parse_faces faces_arr 0 [] = Some (Inr fs)"
    and "connectivity (length pts) fs = Inr (adj, bnd)"
    and "length prev = length pts"
    and "set order = {0..<length prev}"
  shows "smooth_pass adj bnd lambd prev = Inr (jacobi_pass adj bnd lambd prev)
       \<and> smooth_order adj bnd lambd prev order prev = smooth_pass adj bnd lambd prev
       \<and> (\<forall>i<length prev. int i \<notin> bnd \<and> neighbors adj i \<noteq> {} \<longrightarrow>
             jacobi_pass adj bnd lambd prev ! i
               = vadd (prev ! i)
                   (vscale lambd (vsub (neighbor_mean prev (neighbors adj i)) (prev ! i))))
       \<and> laplacian_smooth pts faces_arr lambd iterations
             = Some (Inr ((jacobi_pass adj bnd lambd ^^ nat iterations) pts))"
proof -
  have ok: "adj_ok (length prev) adj"
    using connectivity_adj_ok [OF assms(2)] assms(3) by simp
  have "smooth_pass adj bnd lambd prev = Inr (jacobi_pass adj bnd lambd prev)"
    by (rule smooth_pass_jacobi [OF ok])
  moreover have "smooth_order adj bnd lambd prev order prev = Inr (jacobi_pass adj bnd lambd prev)"
    by (rule smooth_order_jacobi [OF ok assms(4)])
  moreover have "\<forall>i<length prev. int i \<notin> bnd \<and> neighbors adj i \<noteq> {} \<longrightarrow>
             jacobi_pass adj bnd lambd prev ! i
               = vadd (prev ! i)
                   (vscale lambd (vsub (neighbor_mean prev (neighbors adj i)) (prev ! i)))"
    by (simp add: nth_jacobi_pass jacobi_point_def)
  moreover note laplacian_smooth_run [OF assms(1,2), of lambd iterations]
  ultimately show ?thesis by simp
qed

theorem jacobi_update_witness:
  "set [5, 3, 1, 0, 2, 4] = {0..<length fan_points}
   \<and> smooth_order (adj_of 6 fan_fs) (boundary_of 6 fan_fs) (1 / 2) fan_points [5, 3, 1, 0, 2, 4]
        fan_points
       = smooth_pass (adj_of 6 fan_fs) (boundary_of 6 fan_fs) (1 / 2) fan_points
   \<and> smooth_pass (adj_of 6 fan_fs) (boundary_of 6 fan_fs) (1 / 2) fan_points
       = Inr [(3 / 2, 3 / 2, 5 / 2), (0, 0, 0), (4, 0, 0), (4, 4, 0), (0, 4, 0), (9, 9, 9)]
   \<and> laplacian_smooth fan_points fan_faces (1 / 2) 3
       = Some (Inr [(15 / 8, 15 / 8, 5 / 8), (0, 0, 0), (4, 0, 0), (4, 4, 0), (0, 4, 0), (9, 9, 9)])"
proof -
  have o: "set [5, 3, 1, 0, 2, 4] = {0..<length fan_points}" by code_simp
  have p: "smooth_pass (adj_of 6 fan_fs) (boundary_of 6 fan_fs) (1 / 2) fan_points
       = Inr [(3 / 2, 3 / 2, 5 / 2), (0, 0, 0), (4, 0, 0), (4, 4, 0), (0, 4, 0), (9, 9, 9)]"
    by code_simp
  have r: "laplacian_smooth fan_points fan_faces (1 / 2) 3
       = Some (Inr [(15 / 8, 15 / 8, 5 / 8), (0, 0, 0), (4, 0, 0), (4, 4, 0), (0, 4, 0), (9, 9, 9)])"
    by code_simp
  from jacobi_update [OF parse_fan connectivity_fan refl o, of "1 / 2" 3] o p r
  show ?thesis by simp
qed



lemma parse_empty: "parse_faces [] 0 [] = Some (Inr [])"
  by (subst parse_faces.simps) simp

lemma connectivity_no_faces: "connectivity N [] = Inr (init_adj N, {})"
  by (simp add: connectivity_def count_edges_def boundary_verts_def)

lemma neighbors_init_adj: "neighbors (init_adj N) i = {}"
  by (simp add: neighbors_def init_adj_def)

lemma jacobi_pass_all_fixed:
  assumes "\<forall>i<length prev. int i \<in> bnd \<or> neighbors adj i = {}"
  shows "jacobi_pass adj bnd lambd prev = prev"
  by (rule nth_equalityI) (use assms in \<open>simp_all add: nth_jacobi_pass jacobi_point_fixed\<close>)

lemma jacobi_funpow_all_fixed:
  assumes "\<forall>i<length pts. int i \<in> bnd \<or> neighbors adj i = {}"
  shows "(jacobi_pass adj bnd lambd ^^ k) pts = pts"
  by (induction k) (simp_all add: jacobi_pass_all_fixed [OF assms])

lemma edges_in_range_0: "edges_in_range 0 fs = (all_edges fs = [])"
proof
  assume "edges_in_range 0 fs"
  then have "\<not> (\<exists>e. e \<in> set (all_edges fs))"
    by (fastforce simp: edges_in_range_def in_range_def)
  then show "all_edges fs = []" by (cases "all_edges fs") auto
next
  assume "all_edges fs = []"
  then show "edges_in_range 0 fs" by (simp add: edges_in_range_def)
qed

text \<open>
  C5, as the program has it. An empty input is not an error. With an empty face array the
  call returns the input vertex array, for every smoothing factor and iteration count.
  With no vertices and a well-formed face array it returns the empty array when no face
  has an edge between two distinct indices, and otherwise the adjacency lookup raises
  KeyError.
\<close>

theorem empty_input_accepted:
  "laplacian_smooth pts [] lambd iterations = Some (Inr pts)
   \<and> laplacian_smooth [] (encode fs) lambd iterations
        = Some (if all_edges fs = [] then Inr [] else Inl KeyError)"
proof -
  have "laplacian_smooth pts [] lambd iterations = Some (Inr pts)"
    using laplacian_smooth_run [OF parse_empty connectivity_no_faces, of pts lambd iterations]
    by (simp add: jacobi_funpow_all_fixed neighbors_init_adj)
  moreover have "laplacian_smooth [] (encode fs) lambd iterations
        = Some (if all_edges fs = [] then Inr [] else Inl KeyError)"
  proof (cases "all_edges fs = []")
    case True
    then have "edges_in_range (length ([] :: point list)) fs"
      by (simp add: edges_in_range_0)
    from connectivity_ok [OF this] obtain adj
      where "connectivity (length ([] :: point list)) fs = Inr (adj, spec_boundary fs)" ..
    from laplacian_smooth_run [OF parse_encode0 this, of lambd iterations] True
    show ?thesis by (simp add: jacobi_funpow_all_fixed)
  next
    case False
    then have "\<not> edges_in_range (length ([] :: point list)) fs"
      by (simp add: edges_in_range_0)
    from laplacian_smooth_key_error [OF parse_encode0 this] False
    show ?thesis by simp
  qed
  ultimately show ?thesis by blast
qed

theorem empty_input_accepted_witness:
  "laplacian_smooth fan_points [] (1 / 2) 3 = Some (Inr fan_points)
   \<and> laplacian_smooth [] (encode [ [7, 7, 7]]) (1 / 2) 3 = Some (Inr [])
   \<and> laplacian_smooth [] (encode [ [0, 1, 2]]) (1 / 2) 3 = Some (Inl KeyError)"
proof -
  have a: "all_edges [ [7, 7, 7]] = []" by code_simp
  have b: "all_edges [ [0, 1, 2]] \<noteq> []" by code_simp
  from empty_input_accepted [of fan_points "1 / 2" 3 "[ [7, 7, 7]]"]
    empty_input_accepted [of fan_points "1 / 2" 3 "[ [0, 1, 2]]"] a b
  show ?thesis by simp
qed

text \<open>
  Calls with no vertices and no faces, and with three vertices and no faces, return
  normally.
\<close>

theorem empty_input_counterexample:
  "laplacian_smooth [] [] (1 / 2) 1 = Some (Inr [])
   \<and> laplacian_smooth [(0, 0, 0), (1, 0, 0), (0, 1, 0)] [] (1 / 2) 1
        = Some (Inr [(0, 0, 0), (1, 0, 0), (0, 1, 0)])"
  by code_simp

text \<open>
  C4, as the program has it. Neither parameter is validated. Whether the call raises does
  not depend on them. When the face array unpacks and the connectivity pass succeeds,
  every smoothing factor, also outside \<open>[0, 1]\<close>, and every iteration count give a result:
  the update applied \<open>iterations\<close> times, and the input vertex array itself when
  \<open>iterations \<le> 0\<close>.
\<close>

theorem no_parameter_validation:
  "(laplacian_smooth pts faces_arr lambd iterations = Some (Inl e) \<longrightarrow>
      laplacian_smooth pts faces_arr lambd' iterations' = Some (Inl e))
   \<and> (parse_faces faces_arr 0 [] = Some (Inr fs) \<and> connectivity (length pts) fs = Inr (adj, bnd) \<longrightarrow>
        laplacian_smooth pts faces_arr lambd iterations
          = Some (Inr ((jacobi_pass adj bnd lambd ^^ nat iterations) pts))
        \<and> (iterations \<le> 0 \<longrightarrow> laplacian_smooth pts faces_arr lambd iterations = Some (Inr pts)))"
proof -
  have "laplacian_smooth pts faces_arr lambd iterations = Some (Inr pts)"
    if "parse_faces faces_arr 0 [] = Some (Inr fs)" "connectivity (length pts) fs = Inr (adj, bnd)"
      "iterations \<le> 0"
    using laplacian_smooth_run [OF that(1,2), of lambd iterations] that(3) by simp
  with laplacian_smooth_error_params [of pts faces_arr lambd iterations e lambd' iterations']
    laplacian_smooth_run [of faces_arr fs pts adj bnd lambd iterations]
  show ?thesis by blast
qed

theorem no_parameter_validation_witness:
  "laplacian_smooth [(0, 0, 0)] [3, 0, 5, 5] (1 / 2) 1 = Some (Inl KeyError)
   \<and> laplacian_smooth [(0, 0, 0)] [3, 0, 5, 5] 7 (- 2) = Some (Inl KeyError)
   \<and> laplacian_smooth tetra_points tetra_faces 5 (- 1) = Some (Inr tetra_points)"
proof -
  have k: "laplacian_smooth [(0, 0, 0)] [3, 0, 5, 5] (1 / 2) 1 = Some (Inl KeyError)"
    by code_simp
  have n: "(- 1 :: int) \<le> 0" by simp
  from no_parameter_validation [of "[(0, 0, 0)]" "[3, 0, 5, 5]" "1 / 2" 1 KeyError 7 "- 2"] k
  have "laplacian_smooth [(0, 0, 0)] [3, 0, 5, 5] 7 (- 2) = Some (Inl KeyError)"
    by blast
  moreover from no_parameter_validation [of tetra_points tetra_faces 5 "- 1" KeyError 5 "- 1"
      tetra_fs "adj_of 4 tetra_fs" "boundary_of 4 tetra_fs"] parse_tetra connectivity_tetra n
  have "laplacian_smooth tetra_points tetra_faces 5 (- 1) = Some (Inr tetra_points)"
    by blast
  ultimately show ?thesis using k by simp
qed

text \<open>
  On the tetrahedron, iteration counts 0 and -3 return the input array, and the smoothing
  factor 2 is applied as it is.
\<close>

theorem no_parameter_validation_counterexample:
  "laplacian_smooth tetra_points tetra_faces (1 / 2) 0 = Some (Inr tetra_points)
   \<and> laplacian_smooth tetra_points tetra_faces (1 / 2) (- 3) = Some (Inr tetra_points)
   \<and> laplacian_smooth tetra_points tetra_faces 2 1
        = Some (Inr [(2 / 3, 2 / 3, 2 / 3), (- 1, 2 / 3, 2 / 3), (2 / 3, - 1, 2 / 3),
                     (2 / 3, 2 / 3, - 1)])"
  by code_simp

text \<open>
  C9, as the program has it. On a well-formed face array the connectivity pass always
  ends. It raises KeyError exactly when an edge it counts, a consecutive pair of distinct
  indices of a face, has an end outside \<open>[0, N)\<close>; then the call raises KeyError and
  returns no array. An index out of range that occurs only in pairs with equal ends is
  not noticed: the pass succeeds and the call returns.
\<close>

theorem out_of_range_edge_raises:
  "(\<not> edges_in_range (length pts) fs \<longrightarrow>
       connectivity (length pts) fs = Inl KeyError
       \<and> laplacian_smooth pts (encode fs) lambd iterations = Some (Inl KeyError))
   \<and> (edges_in_range (length pts) fs \<longrightarrow>
       \<not> isl (connectivity (length pts) fs)
       \<and> (\<exists>out. laplacian_smooth pts (encode fs) lambd iterations = Some (Inr out)
              \<and> length out = length pts))"
proof -
  have "\<not> isl (connectivity (length pts) fs)
       \<and> (\<exists>out. laplacian_smooth pts (encode fs) lambd iterations = Some (Inr out)
              \<and> length out = length pts)"
    if "edges_in_range (length pts) fs"
  proof -
    from connectivity_ok [OF that] obtain adj
      where c: "connectivity (length pts) fs = Inr (adj, spec_boundary fs)" ..
    from laplacian_smooth_run [OF parse_encode0 c, of lambd iterations] c
    show ?thesis by simp
  qed
  with connectivity_bad [of "length pts" fs]
    laplacian_smooth_key_error [OF parse_encode0, of pts fs lambd iterations]
  show ?thesis by blast
qed

theorem out_of_range_edge_raises_witness:
  "connectivity (length fan_points) [ [0, 1, 9]] = Inl KeyError
   \<and> laplacian_smooth fan_points (encode [ [0, 1, 9]]) (1 / 2) 3 = Some (Inl KeyError)
   \<and> \<not> isl (connectivity (length [(0, 0, 0) :: point]) [ [5, 5, 5]])
   \<and> (\<exists>out. laplacian_smooth [(0, 0, 0)] (encode [ [5, 5, 5]]) (1 / 2) 3 = Some (Inr out)
          \<and> length out = length [(0, 0, 0) :: point])"
proof -
  have a: "\<not> edges_in_range (length fan_points) [ [0, 1, 9]]" by code_simp
  have b: "edges_in_range (length [(0, 0, 0) :: point]) [ [5, 5, 5]]" by code_simp
  from out_of_range_edge_raises [of fan_points "[ [0, 1, 9]]" "1 / 2" 3]
    out_of_range_edge_raises [of "[(0, 0, 0)]" "[ [5, 5, 5]]" "1 / 2" 3] a b
  show ?thesis by blast
qed

text \<open>
  One vertex and the single face (5, 5, 5): index 5 is out of range, every pair of the
  face is a self-edge, and the call returns the input array.
\<close>

theorem out_of_range_counterexample:
  "\<not> in_range 1 5
   \<and> \<not> isl (connectivity 1 [ [5, 5, 5]])
   \<and> laplacian_smooth [(0, 0, 0)] [3, 5, 5, 5] (1 / 2) 1 = Some (Inr [(0, 0, 0)])"
  by code_simp

end
